theory Spec2Isabelle
  imports Main "HOL-Library.Word" "HOL-Library.Signed_Division"
begin

section \<open>Fibonacci in Go: six implementations over the native \<open>int\<close>\<close>

text \<open>
  The package \<open>fib\<close> computes the nth Fibonacci number in six ways. Every value in
  the Go source has type \<open>int\<close>, which on the 64-bit platforms the benchmarks ran on is
  a two's-complement 64-bit integer: \<open>+\<close>, \<open>-\<close> and \<open>*\<close> wrap around silently, the
  comparisons \<open><\<close> and \<open><=\<close> are signed, \<open>/\<close> truncates towards zero and \<open>%\<close> takes
  the sign of the dividend. The model uses \<open>64 word\<close> for all of them, the argument
  \<open>n\<close> included, and reads a word as a Go \<open>int\<close> with \<open>sint\<close>.
\<close>

type_synonym go_int = "64 word"

subsection \<open>The mathematical sequence\<close>

text \<open>\<open>F(0) = 0\<close>, \<open>F(1) = 1\<close>, \<open>F(n+2) = F(n+1) + F(n)\<close>, on the natural numbers.\<close>

fun fib :: "nat \<Rightarrow> nat" where
  "fib 0 = 0"
| "fib (Suc 0) = 1"
| "fib (Suc (Suc n)) = fib (Suc n) + fib n"

subsection \<open>Go's integer division and remainder\<close>

text \<open>
  Go's \<open>/\<close> and \<open>%\<close> on \<open>int\<close>: the quotient is truncated towards zero and the result
  wraps to 64 bits. The only divisor in the source is the literal \<open>2\<close>, so the run-time
  panic of a division by zero has no branch here.
\<close>

definition go_div :: "go_int \<Rightarrow> go_int \<Rightarrow> go_int" where
  "go_div a b = word_of_int (sint a sdiv sint b)"

definition go_mod :: "go_int \<Rightarrow> go_int \<Rightarrow> go_int" where
  "go_mod a b = word_of_int (sint a smod sint b)"

subsection \<open>FibRecursive\<close>

text \<open>
  \<^verbatim>\<open>
  func FibRecursive(n int) int {
      if n < 2 {
          return n
      }
      return FibRecursive(n-1) + FibRecursive(n-2)
  }
  \<close>
\<close>

function FibRecursive :: "go_int \<Rightarrow> go_int" where
  "FibRecursive n = (if n <s 2 then n else FibRecursive (n - 1) + FibRecursive (n - 2))"
  by pat_completeness auto
termination
proof (relation "measure (\<lambda>n. nat (sint n))")
  show "wf (measure (\<lambda>n::go_int. nat (sint n)))" by simp
next
  fix n :: go_int assume "\<not> n <s 2"
  then show "(n - 1, n) \<in> measure (\<lambda>n. nat (sint n))"
    using sint_lt[of n]
    by (simp add: word_sless_alt sint_word_diff signed_take_bit_int_eq_self)
next
  fix n :: go_int assume "\<not> n <s 2"
  then show "(n - 2, n) \<in> measure (\<lambda>n. nat (sint n))"
    using sint_lt[of n]
    by (simp add: word_sless_alt sint_word_diff signed_take_bit_int_eq_self)
qed

subsection \<open>FibRecursiveCache\<close>

text \<open>
  \<^verbatim>\<open>
  func FibRecursiveCache(n int) int {
      cache := make([]int, n+1, n+1)
      fibRecursiveCache(n, &cache)
      return cache[n]
  }

  func fibRecursiveCache(n int, cache *[]int) {
      if n < 2 {
          (*cache)[0] = 0
          (*cache)[1] = 1
          return
      }
      fibRecursiveCache(n-1, cache)

      (*cache)[n] = (*cache)[n-1] + (*cache)[n-2]
  }
  \<close>
  A slice is a list of its elements. The helper never changes the slice's length, only
  its elements, and nothing else holds the slice while it runs: it takes the slice and
  returns the updated one. Go panics when \<open>make\<close> is given a negative length and when
  an index is outside \<open>0 .. len-1\<close>; both are values of \<open>panic\<close>, and a function that
  can panic returns \<open>panic + 'a\<close>. Running out of memory for a large slice is not
  modelled.
\<close>

datatype panic = IndexOutOfRange | MakeSliceLenOutOfRange

definition make_slice :: "go_int \<Rightarrow> panic + go_int list" where
  "make_slice len =
     (if len <s 0 then Inl MakeSliceLenOutOfRange else Inr (replicate (nat (sint len)) 0))"

definition in_bounds :: "go_int list \<Rightarrow> go_int \<Rightarrow> bool" where
  "in_bounds xs i = (0 \<le>s i \<and> nat (sint i) < length xs)"

definition slice_get :: "go_int list \<Rightarrow> go_int \<Rightarrow> panic + go_int" where
  "slice_get xs i = (if in_bounds xs i then Inr (xs ! nat (sint i)) else Inl IndexOutOfRange)"

definition slice_set :: "go_int list \<Rightarrow> go_int \<Rightarrow> go_int \<Rightarrow> panic + go_int list" where
  "slice_set xs i v = (if in_bounds xs i then Inr (xs[nat (sint i) := v]) else Inl IndexOutOfRange)"

function fibRecursiveCache :: "go_int \<Rightarrow> go_int list \<Rightarrow> panic + go_int list" where
  "fibRecursiveCache n cache =
     (if n <s 2 then
        (case slice_set cache 0 0 of
           Inl e \<Rightarrow> Inl e
         | Inr c0 \<Rightarrow> slice_set c0 1 1)
      else
        (case fibRecursiveCache (n - 1) cache of
           Inl e \<Rightarrow> Inl e
         | Inr c \<Rightarrow>
             (case slice_get c (n - 1) of
                Inl e \<Rightarrow> Inl e
              | Inr a \<Rightarrow>
                  (case slice_get c (n - 2) of
                     Inl e \<Rightarrow> Inl e
                   | Inr b \<Rightarrow> slice_set c n (a + b)))))"
  by pat_completeness auto
termination
proof (relation "measure (\<lambda>(n, cache). nat (sint n))")
  show "wf (measure (\<lambda>(n::go_int, cache::go_int list). nat (sint n)))" by simp
next
  fix n :: go_int and cache :: "go_int list" assume "\<not> n <s 2"
  then show "((n - 1, cache), (n, cache)) \<in> measure (\<lambda>(n, cache). nat (sint n))"
    using sint_lt[of n]
    by (simp add: word_sless_alt sint_word_diff signed_take_bit_int_eq_self)
qed

definition FibRecursiveCache :: "go_int \<Rightarrow> panic + go_int" where
  "FibRecursiveCache n =
     (case make_slice (n + 1) of
        Inl e \<Rightarrow> Inl e
      | Inr cache \<Rightarrow>
          (case fibRecursiveCache n cache of
             Inl e \<Rightarrow> Inl e
           | Inr cache' \<Rightarrow> slice_get cache' n))"

subsection \<open>FibTailRecursive\<close>

text \<open>
  \<^verbatim>\<open>
  func FibTailRecursive(n int) int {
      return fibTailRecursive(n, 0, 1)
  }

  func fibTailRecursive(n, first, second int) int {
      if n == 0 {
          return first
      }
      return fibTailRecursive(n-1, second, first+second)
  }
  \<close>
  The test is \<open>n == 0\<close>, not \<open>n <= 0\<close>: from a negative \<open>n\<close> the counter wraps at the
  smallest \<open>int\<close> and reaches 0 from above, so the recursion is bounded by the unsigned
  reading of \<open>n\<close>. The depth of Go's call stack is not modelled.
\<close>

function fibTailRecursive :: "go_int \<Rightarrow> go_int \<Rightarrow> go_int \<Rightarrow> go_int" where
  "fibTailRecursive n first second =
     (if n = 0 then first else fibTailRecursive (n - 1) second (first + second))"
  by pat_completeness auto
termination
  by (relation "measure (\<lambda>(n, first, second). unat n)") (auto simp: unat_minus_one unat_gt_0)

definition FibTailRecursive :: "go_int \<Rightarrow> go_int" where
  "FibTailRecursive n = fibTailRecursive n 0 1"

subsection \<open>FibIterative\<close>

text \<open>
  \<^verbatim>\<open>
  func FibIterative(n int) int {
      var temp int
      first := 0
      second := 1
      for i := 0; i < n-1; i++ {
          temp = second
          second = first + second
          first = temp
      }
      return second
  }
  \<close>
  The loop is the recursive function \<open>FibIterative_loop\<close> on the loop variables
  \<open>i\<close>, \<open>first\<close> and \<open>second\<close>; \<open>temp\<close> is assigned before it is read in every
  iteration. The function returns \<open>second\<close> when the guard \<open>i < n-1\<close> fails.
\<close>

function FibIterative_loop :: "go_int \<Rightarrow> go_int \<Rightarrow> go_int \<Rightarrow> go_int \<Rightarrow> go_int" where
  "FibIterative_loop n i first second =
     (if i <s n - 1 then
        (let temp = second;
             second' = first + second;
             first' = temp
         in FibIterative_loop n (i + 1) first' second')
      else second)"
  by pat_completeness auto
termination
proof (relation "measure (\<lambda>(n, i, first, second). nat (sint (n - 1) - sint i))")
  show "wf (measure (\<lambda>(n::go_int, i::go_int, first::go_int, second::go_int).
              nat (sint (n - 1) - sint i)))"
    by simp
next
  fix n i first second temp second' first' :: go_int
  assume "i <s n - 1"
  then show "((n, i + 1, first', second'), (n, i, first, second))
               \<in> measure (\<lambda>(n, i, first, second). nat (sint (n - 1) - sint i))"
    using sint_lt[of "n - 1"] sint_ge[of i]
    by (simp add: word_sless_alt sint_word_add signed_take_bit_int_eq_self)
qed

definition FibIterative :: "go_int \<Rightarrow> go_int" where
  "FibIterative n = FibIterative_loop n 0 0 1"

subsection \<open>The 2x2 matrices and the store they live in\<close>

text \<open>
  The two matrix variants keep a \<open>[2][2]int\<close> in a local variable and pass its address
  to helpers that overwrite it; \<open>fibPowerRecursive\<close> calls \<open>fibMultiply(F, F)\<close> with
  the same address twice. The model therefore has an explicit store: an address is a
  natural number, the store maps every address to a matrix, and a local array whose
  address is taken is allocated at the next free address. The source only ever passes the
  address of a local, so a nil pointer has no branch in the model.
\<close>

record mat =
  m00 :: go_int
  m01 :: go_int
  m10 :: go_int
  m11 :: go_int

type_synonym addr = nat

record store =
  heap :: "addr \<Rightarrow> mat"
  next_free :: addr

definition empty_store :: store where
  "empty_store = \<lparr>heap = (\<lambda>_. \<lparr>m00 = 0, m01 = 0, m10 = 0, m11 = 0\<rparr>), next_free = 0\<rparr>"

definition alloc :: "mat \<Rightarrow> store \<Rightarrow> addr \<times> store" where
  "alloc v s =
     (next_free s, s\<lparr>heap := (heap s)(next_free s := v), next_free := Suc (next_free s)\<rparr>)"

text \<open>One assignment \<open>(*p)[i][j] = v\<close>: the matrix at \<open>p\<close> changes in one cell.\<close>

definition store_cell :: "addr \<Rightarrow> (mat \<Rightarrow> mat) \<Rightarrow> store \<Rightarrow> store" where
  "store_cell p upd s = s\<lparr>heap := (heap s)(p := upd (heap s p))\<rparr>"

text \<open>The literal \<open>[2][2]int{[2]int{1, 1}, [2]int{1, 0}}\<close>.\<close>

definition base_matrix :: mat where
  "base_matrix = \<lparr>m00 = 1, m01 = 1, m10 = 1, m11 = 0\<rparr>"

text \<open>
  \<^verbatim>\<open>
  func fibMultiply(F *[2][2]int, M *[2][2]int) {
      f := *F
      m := *M
      x := f[0][0]*m[0][0] + f[0][1]*m[1][0]
      y := f[0][0]*m[0][1] + f[0][1]*m[1][1]
      z := f[1][0]*m[0][0] + f[1][1]*m[1][0]
      w := f[1][0]*m[0][1] + f[1][1]*m[1][1]

      (*F)[0][0] = x
      (*F)[0][1] = y
      (*F)[1][0] = z
      (*F)[1][1] = w
  }
  \<close>
  In Go an array is a value: \<open>f := *F\<close> copies the four cells. The four assignments
  at the end are four separate writes to the store, in the source's order.
\<close>

definition fibMultiply :: "addr \<Rightarrow> addr \<Rightarrow> store \<Rightarrow> store" where
  "fibMultiply F M s =
     (let f = heap s F;
          m = heap s M;
          x = m00 f * m00 m + m01 f * m10 m;
          y = m00 f * m01 m + m01 f * m11 m;
          z = m10 f * m00 m + m11 f * m10 m;
          w = m10 f * m01 m + m11 f * m11 m;
          s1 = store_cell F (\<lambda>a. a\<lparr>m00 := x\<rparr>) s;
          s2 = store_cell F (\<lambda>a. a\<lparr>m01 := y\<rparr>) s1;
          s3 = store_cell F (\<lambda>a. a\<lparr>m10 := z\<rparr>) s2;
          s4 = store_cell F (\<lambda>a. a\<lparr>m11 := w\<rparr>) s3
      in s4)"

subsection \<open>FibPowerMatrix\<close>

text \<open>
  \<^verbatim>\<open>
  func FibPowerMatrix(n int) int {
      F := [2][2]int{
          [2]int{1, 1},
          [2]int{1, 0},
      }
      if n == 0 {
          return 0
      }
      fibPower(&F, n-1)
      return F[0][0]
  }

  func fibPower(F *[2][2]int, n int) {
      M := [2][2]int{
          [2]int{1, 1},
          [2]int{1, 0},
      }
      for i := 2; i <= n; i++ {
          fibMultiply(F, &M)
      }
  }
  \<close>
  When \<open>n\<close> is the largest \<open>int\<close> the guard \<open>i <= n\<close> never fails and \<open>i++\<close> wraps:
  the loop does not end. The loop is therefore a partial function into \<open>option\<close>, where
  \<open>None\<close> is not returning, and that it returns is a theorem where it does.
\<close>

partial_function (option) fibPower_loop ::
  "addr \<Rightarrow> addr \<Rightarrow> go_int \<Rightarrow> go_int \<Rightarrow> store \<Rightarrow> store option" where
  "fibPower_loop F M n i s =
     (if i \<le>s n then fibPower_loop F M n (i + 1) (fibMultiply F M s) else Some s)"

definition fibPower :: "addr \<Rightarrow> go_int \<Rightarrow> store \<Rightarrow> store option" where
  "fibPower F n s = (case alloc base_matrix s of (M, s1) \<Rightarrow> fibPower_loop F M n 2 s1)"

definition FibPowerMatrix :: "go_int \<Rightarrow> go_int option" where
  "FibPowerMatrix n =
     (case alloc base_matrix empty_store of (F, s) \<Rightarrow>
        if n = 0 then Some 0
        else Option.bind (fibPower F (n - 1) s) (\<lambda>s'. Some (m00 (heap s' F))))"

subsection \<open>FibPowerMatrixRecursive\<close>

text \<open>
  \<^verbatim>\<open>
  func FibPowerMatrixRecursive(n int) int {
      F := [2][2]int{
          [2]int{1, 1},
          [2]int{1, 0},
      }

      if n == 0 {
          return 0
      }
      fibPowerRecursive(&F, n-1)
      return F[0][0]
  }

  func fibPowerRecursive(F *[2][2]int, n int) {
      if n == 0 || n == 1 {
          return
      }

      M := [2][2]int{
          [2]int{1, 1},
          [2]int{1, 0},
      }
      fibPowerRecursive(F, n/2)
      fibMultiply(F, F)
      if n%2 != 0 {
          fibMultiply(F, &M)
      }
  }
  \<close>
  The recursion is defined without a termination argument, as a partial function into
  \<open>option\<close>; that every call returns is proved below.
\<close>

partial_function (option) fibPowerRecursive ::
  "addr \<Rightarrow> go_int \<Rightarrow> store \<Rightarrow> store option" where
  "fibPowerRecursive F n s =
     (if n = 0 \<or> n = 1 then Some s
      else (case alloc base_matrix s of (M, s1) \<Rightarrow>
        Option.bind (fibPowerRecursive F (go_div n 2) s1)
          (\<lambda>s2. let s3 = fibMultiply F F s2
                in if go_mod n 2 \<noteq> 0 then Some (fibMultiply F M s3) else Some s3)))"

definition FibPowerMatrixRecursive :: "go_int \<Rightarrow> go_int option" where
  "FibPowerMatrixRecursive n =
     (case alloc base_matrix empty_store of (F, s) \<Rightarrow>
        if n = 0 then Some 0
        else Option.bind (fibPowerRecursive F (n - 1) s) (\<lambda>s'. Some (m00 (heap s' F))))"

subsection \<open>Matrix algebra used to state the results\<close>

text \<open>The standard product of two 2x2 matrices, the identity, and the kth power.\<close>

definition mat_mul :: "mat \<Rightarrow> mat \<Rightarrow> mat" where
  "mat_mul a b =
     \<lparr>m00 = m00 a * m00 b + m01 a * m10 b,
      m01 = m00 a * m01 b + m01 a * m11 b,
      m10 = m10 a * m00 b + m11 a * m10 b,
      m11 = m10 a * m01 b + m11 a * m11 b\<rparr>"

definition mat_one :: mat where
  "mat_one = \<lparr>m00 = 1, m01 = 0, m10 = 0, m11 = 1\<rparr>"

fun mat_pow :: "mat \<Rightarrow> nat \<Rightarrow> mat" where
  "mat_pow a 0 = mat_one"
| "mat_pow a (Suc k) = mat_mul (mat_pow a k) a"

text \<open>The index of the sequence that a Go \<open>int\<close> denotes.\<close>

definition idx :: "go_int \<Rightarrow> nat" where
  "idx n = nat (sint n)"

section \<open>Properties\<close>

subsection \<open>Signed 64-bit arithmetic where nothing wraps\<close>

lemma sint_range: "- 9223372036854775808 \<le> sint (n::go_int) \<and> sint n < 9223372036854775808"
  using sint_ge[of n] sint_lt[of n] by simp

lemma sint_sub_no_wrap:
  "- 9223372036854775808 \<le> sint (a::go_int) - sint b \<Longrightarrow> sint a - sint b < 9223372036854775808
   \<Longrightarrow> sint (a - b) = sint a - sint b"
  by (simp add: sint_word_diff signed_take_bit_int_eq_self)

lemma sint_add_no_wrap:
  "- 9223372036854775808 \<le> sint (a::go_int) + sint b \<Longrightarrow> sint a + sint b < 9223372036854775808
   \<Longrightarrow> sint (a + b) = sint a + sint b"
  by (simp add: sint_word_add signed_take_bit_int_eq_self)

lemma sint_dec: "1 \<le>s (n::go_int) \<Longrightarrow> sint (n - 1) = sint n - 1"
  using sint_range[of n] by (simp add: word_sle_eq sint_sub_no_wrap)

lemma sint_dec2: "\<not> n <s (2::go_int) \<Longrightarrow> sint (n - 2) = sint n - 2"
  using sint_range[of n] by (simp add: word_sless_alt sint_sub_no_wrap)

lemma word_of_idx: "0 \<le>s (n::go_int) \<Longrightarrow> word_of_nat (idx n) = n"
  by (simp add: idx_def word_sle_eq flip: word_of_int_nat)

lemma idx_dec: "1 \<le>s (n::go_int) \<Longrightarrow> idx n = Suc (idx (n - 1))"
  using sint_dec[of n] by (simp add: idx_def word_sle_eq)

lemma idx_dec2: "\<not> n <s (2::go_int) \<Longrightarrow> idx n = Suc (Suc (idx (n - 2)))"
  using sint_dec2[of n] by (simp add: idx_def word_sless_alt)


lemma word_eq_of_sint: "sint (n::go_int) = k \<Longrightarrow> n = word_of_int k"
  by auto

lemma nonneg_cases: "0 \<le>s (n::go_int) \<Longrightarrow> n = 0 \<or> 1 \<le>s n"
proof -
  assume "0 \<le>s n"
  then have "sint n = 0 \<or> 1 \<le> sint n" by (auto simp: word_sle_eq)
  then show ?thesis
  proof
    assume "sint n = 0"
    then have "n = word_of_int 0" by (rule word_eq_of_sint)
    then show ?thesis by simp
  next
    assume "1 \<le> sint n"
    then show ?thesis by (simp add: word_sle_eq)
  qed
qed

declare FibRecursive.simps [simp del]
declare fibTailRecursive.simps [simp del]
declare FibIterative_loop.simps [simp del]
declare fibRecursiveCache.simps [simp del]

lemma fib_small: "k < 2 \<Longrightarrow> fib k = k"
  by (cases k) auto

lemma FibRecursive_fib: "0 \<le>s n \<Longrightarrow> FibRecursive n = word_of_nat (fib (idx n))"
proof (induction n rule: FibRecursive.induct)
  case (1 n)
  show ?case
  proof (cases "n <s 2")
    case True
    with "1.prems" have "idx n < 2" by (simp add: idx_def word_sless_alt word_sle_eq)
    then have "fib (idx n) = idx n" by (rule fib_small)
    with True "1.prems" show ?thesis
      by (simp add: FibRecursive.simps[of n] word_of_idx)
  next
    case False
    then have ge: "2 \<le> sint n" by (simp add: word_sless_alt)
    then have one: "1 \<le>s n" by (simp add: word_sle_eq)
    have p1: "0 \<le>s n - 1" and p2: "0 \<le>s n - 2"
      using ge sint_dec[OF one] sint_dec2[OF False] by (simp_all add: word_sle_eq)
    have i1: "idx (n - 1) = Suc (idx (n - 2))"
      using idx_dec[OF one] idx_dec2[OF False] by simp
    have "FibRecursive n = FibRecursive (n - 1) + FibRecursive (n - 2)"
      using False by (simp add: FibRecursive.simps[of n])
    also have "\<dots> = word_of_nat (fib (idx (n - 1))) + word_of_nat (fib (idx (n - 2)))"
      using "1.IH"(1)[OF False p1] "1.IH"(2)[OF False p2] by simp
    also have "\<dots> = word_of_nat (fib (idx n))"
      by (simp add: i1 idx_dec2[OF False])
    finally show ?thesis .
  qed
qed

lemma fibTailRecursive_fib:
  "0 \<le>s n \<Longrightarrow> first = word_of_nat (fib j) \<Longrightarrow> second = word_of_nat (fib (Suc j))
   \<Longrightarrow> fibTailRecursive n first second = word_of_nat (fib (idx n + j))"
proof (induction n first second arbitrary: j rule: fibTailRecursive.induct)
  case (1 n first second)
  show ?case
  proof (cases "n = 0")
    case True
    with "1.prems" show ?thesis
      by (simp add: fibTailRecursive.simps[of 0] idx_def)
  next
    case False
    with "1.prems"(1) have one: "1 \<le>s n" using nonneg_cases by blast
    then have p: "0 \<le>s n - 1" using sint_dec[OF one] by (simp add: word_sle_eq)
    have "fibTailRecursive n first second = fibTailRecursive (n - 1) second (first + second)"
      using False by (simp add: fibTailRecursive.simps[of n])
    also have "\<dots> = word_of_nat (fib (idx (n - 1) + Suc j))"
      by (rule "1.IH"[OF False p]) (simp_all add: "1.prems")
    also have "\<dots> = word_of_nat (fib (idx n + j))"
      by (simp add: idx_dec[OF one])
    finally show ?thesis .
  qed
qed

lemma FibTailRecursive_fib: "0 \<le>s n \<Longrightarrow> FibTailRecursive n = word_of_nat (fib (idx n))"
  using fibTailRecursive_fib[of n 0 0 1] by (simp add: FibTailRecursive_def)

lemma FibIterative_loop_fib:
  "first = word_of_nat (fib j) \<Longrightarrow> second = word_of_nat (fib (Suc j))
   \<Longrightarrow> FibIterative_loop n i first second
       = word_of_nat (fib (Suc j + nat (sint (n - 1) - sint i)))"
proof (induction n i first second arbitrary: j rule: FibIterative_loop.induct)
  case (1 n i first second)
  show ?case
  proof (cases "i <s n - 1")
    case False
    then show ?thesis
      by (simp add: FibIterative_loop.simps[of n i] "1.prems" word_sless_alt)
  next
    case True
    then have lt: "sint i < sint (n - 1)" by (simp add: word_sless_alt)
    then have si: "sint (i + 1) = sint i + 1"
      using sint_range[of i] sint_range[of "n - 1"] by (simp add: sint_add_no_wrap)
    have "FibIterative_loop n i first second = FibIterative_loop n (i + 1) second (first + second)"
      using True by (simp add: FibIterative_loop.simps[of n i])
    also have "\<dots> = word_of_nat (fib (Suc (Suc j) + nat (sint (n - 1) - sint (i + 1))))"
      by (rule "1.IH"[OF True refl refl refl]) (simp_all add: "1.prems")
    also have "Suc (Suc j) + nat (sint (n - 1) - sint (i + 1)) = Suc j + nat (sint (n - 1) - sint i)"
      using lt si by simp
    finally show ?thesis .
  qed
qed

lemma FibIterative_fib: "1 \<le>s n \<Longrightarrow> FibIterative n = word_of_nat (fib (idx n))"
  using FibIterative_loop_fib[of 0 0 1 n 0] sint_dec[of n]
  by (simp add: FibIterative_def idx_def word_sle_eq Suc_nat_eq_nat_zadd1)

lemma FibIterative_0: "FibIterative 0 = 1"
  by (simp add: FibIterative_def FibIterative_loop.simps[of 0 0])


subsection \<open>Values and growth of the sequence\<close>

lemma fib_add: "fib (Suc (n + k)) = fib (Suc k) * fib (Suc n) + fib k * fib n"
  by (induction n rule: fib.induct) (simp_all add: algebra_simps)

lemma fib_10: "fib 10 = 55" by code_simp
lemma fib_11: "fib 11 = 89" by code_simp
lemma fib_12: "fib 12 = 144" by code_simp

lemma fib_22: "fib 22 = 17711"
  using fib_add[of 10 11] by (simp add: fib_10 fib_11 fib_12)
lemma fib_23: "fib 23 = 28657"
  using fib_add[of 11 11] by (simp add: fib_11 fib_12)
lemma fib_24: "fib 24 = 46368"
  using fib_add[of 11 12] fib.simps(3)[of 11] by (simp add: fib_11 fib_12)
lemma fib_45: "fib 45 = 1134903170"
  using fib_add[of 22 22] by (simp add: fib_22 fib_23)
lemma fib_46: "fib 46 = 1836311903"
  using fib_add[of 22 23] by (simp add: fib_22 fib_23 fib_24)
lemma fib_47: "fib 47 = 2971215073"
  using fib_add[of 23 23] by (simp add: fib_23 fib_24)
lemma fib_92: "fib 92 = 7540113804746346429"
  using fib_add[of 45 46] by (simp add: fib_45 fib_46 fib_47)
lemma fib_93: "fib 93 = 12200160415121876738"
  using fib_add[of 46 46] by (simp add: fib_46 fib_47)
lemma fib_mono_Suc: "fib k \<le> fib (Suc k)"
  by (induction k rule: fib.induct) simp_all

lemma fib_mono: "j \<le> k \<Longrightarrow> fib j \<le> fib k"
  by (rule lift_Suc_mono_le[of fib]) (simp_all add: fib_mono_Suc)

lemma sint_of_nat_small:
  "k < 9223372036854775808 \<Longrightarrow> sint (word_of_nat k :: go_int) = int k"
  by (simp add: signed_of_nat signed_take_bit_int_eq_self)

lemma fib_exact:
  assumes "0 \<le>s n" "n \<le>s 92"
  shows "sint (word_of_nat (fib (idx n)) :: go_int) = int (fib (idx n))"
proof -
  from assms have "idx n \<le> 92" by (simp add: idx_def word_sle_eq)
  then have "fib (idx n) \<le> fib 92" by (rule fib_mono)
  then show ?thesis by (simp add: fib_92 sint_of_nat_small)
qed

lemma fib_overflow:
  assumes "93 \<le>s n"
  shows "sint (w :: go_int) \<noteq> int (fib (idx n))"
proof -
  from assms have "93 \<le> idx n" by (simp add: idx_def word_sle_eq)
  then have "fib 93 \<le> fib (idx n)" by (rule fib_mono)
  then have "(9223372036854775808::int) \<le> int (fib (idx n))" by (simp add: fib_93)
  moreover have "sint w < 9223372036854775808" using sint_range[of w] by simp
  ultimately show ?thesis by linarith
qed

lemma unat_fib: "unat (word_of_nat k :: go_int) = k mod 2 ^ 64"
  by (simp add: unat_of_nat)



subsection \<open>The cache of FibRecursiveCache\<close>

lemma in_bounds_iff: "0 \<le>s i \<Longrightarrow> in_bounds xs i = (idx i < length xs)"
  by (simp add: in_bounds_def idx_def)

lemma idx_0 [simp]: "idx 0 = 0" by (simp add: idx_def)
lemma idx_1 [simp]: "idx 1 = Suc 0" by (simp add: idx_def)

text \<open>The cache after the helper: the same length, and \<open>F(k)\<close> at every index up to \<open>n\<close>.\<close>

lemma fibRecursiveCache_fills:
  "1 \<le>s n \<Longrightarrow> idx n < length cache \<Longrightarrow>
   \<exists>c. fibRecursiveCache n cache = Inr c \<and> length c = length cache
       \<and> (\<forall>k\<le>idx n. c ! k = word_of_nat (fib k))"
proof (induction n cache rule: fibRecursiveCache.induct)
  case (1 n cache)
  show ?case
  proof (cases "n <s 2")
    case True
    with "1.prems"(1) have "sint n = 1" by (simp add: word_sless_alt word_sle_eq)
    then have "n = word_of_int 1" by (rule word_eq_of_sint)
    then have n1: "n = 1" by simp
    with "1.prems"(2) have len: "Suc 0 < length cache" by simp
    have "fibRecursiveCache 1 cache = Inr (cache[0 := 0, Suc 0 := 1])"
      using len
      by (auto simp: fibRecursiveCache.simps[of 1] slice_set_def in_bounds_def
          word_sless_alt word_sle_eq)
    moreover have "\<forall>k\<le>Suc 0. (cache[0 := 0, Suc 0 := 1]) ! k = word_of_nat (fib k)"
    proof (intro allI impI)
      fix k :: nat assume "k \<le> Suc 0"
      then have "k = 0 \<or> k = Suc 0" by auto
      moreover have "cache \<noteq> []" using len by (cases cache) simp_all
      ultimately show "(cache[0 := 0, Suc 0 := 1]) ! k = word_of_nat (fib k)"
        using len by (auto simp: nth_list_update)
    qed
    ultimately show ?thesis using n1 by simp
  next
    case False
    then have ge: "2 \<le> sint n" by (simp add: word_sless_alt)
    then have one: "1 \<le>s n" by (simp add: word_sle_eq)
    have s1: "sint (n - 1) = sint n - 1" by (rule sint_dec[OF one])
    have s2: "sint (n - 2) = sint n - 2" by (rule sint_dec2[OF False])
    have p1: "1 \<le>s n - 1" using ge s1 by (simp add: word_sle_eq)
    have i1: "idx n = Suc (idx (n - 1))" by (rule idx_dec[OF one])
    have i2: "idx n = Suc (Suc (idx (n - 2)))" by (rule idx_dec2[OF False])
    have "idx (n - 1) < length cache" using "1.prems"(2) i1 by simp
    from "1.IH"[OF False p1 this] obtain c where
      c: "fibRecursiveCache (n - 1) cache = Inr c" and lc: "length c = length cache"
      and fc: "\<forall>k\<le>idx (n - 1). c ! k = word_of_nat (fib k)" by blast
    have b0: "in_bounds c n" using "1.prems" lc ge by (simp add: in_bounds_def idx_def word_sle_eq)
    have b1: "in_bounds c (n - 1)"
      using "1.prems"(2) lc ge s1 by (simp add: in_bounds_def idx_def word_sle_eq)
    have b2: "in_bounds c (n - 2)"
      using "1.prems"(2) lc ge s2 by (simp add: in_bounds_def idx_def word_sle_eq)
    let ?v = "c ! idx (n - 1) + c ! idx (n - 2)"
    have res: "fibRecursiveCache n cache = Inr (c[idx n := ?v])"
      using False c b0 b1 b2
      by (simp add: fibRecursiveCache.simps[of n] slice_get_def slice_set_def idx_def)
    have v: "?v = word_of_nat (fib (idx n))"
    proof -
      have "c ! idx (n - 1) = word_of_nat (fib (idx (n - 1)))" using fc by simp
      moreover have "c ! idx (n - 2) = word_of_nat (fib (idx (n - 2)))"
        using fc i1 i2 by simp
      moreover have "idx (n - 1) = Suc (idx (n - 2))" using i1 i2 by simp
      moreover have "fib (idx n) = fib (Suc (idx (n - 2))) + fib (idx (n - 2))"
        by (simp add: i2)
      ultimately show ?thesis by simp
    qed
    have "\<forall>k\<le>idx n. (c[idx n := ?v]) ! k = word_of_nat (fib k)"
    proof (intro allI impI)
      fix k assume "k \<le> idx n"
      show "(c[idx n := ?v]) ! k = word_of_nat (fib k)"
      proof (cases "k = idx n")
        case True
        then show ?thesis using v "1.prems"(2) lc by simp
      next
        case False
        with \<open>k \<le> idx n\<close> i1 have "k \<le> idx (n - 1)" by simp
        then show ?thesis using fc False by simp
      qed
    qed
    then show ?thesis using res lc by simp
  qed
qed

lemma make_slice_Suc:
  "0 \<le>s n \<Longrightarrow> sint n < 9223372036854775807 \<Longrightarrow> make_slice (n + 1) = Inr (replicate (Suc (idx n)) 0)"
proof -
  assume a: "0 \<le>s n" "sint n < 9223372036854775807"
  then have "sint (n + 1) = sint n + 1" by (simp add: sint_add_no_wrap word_sle_eq)
  then show ?thesis using a by (simp add: make_slice_def word_sless_alt word_sle_eq idx_def Suc_nat_eq_nat_zadd1)
qed

lemma FibRecursiveCache_fib:
  assumes "1 \<le>s n" "sint n < 9223372036854775807"
  shows "FibRecursiveCache n = Inr (word_of_nat (fib (idx n)))"
proof -
  from assms(1) have nn: "0 \<le>s n" by (simp add: word_sle_eq)
  have mk: "make_slice (n + 1) = Inr (replicate (Suc (idx n)) 0)"
    by (rule make_slice_Suc[OF nn assms(2)])
  obtain c where c: "fibRecursiveCache n (replicate (Suc (idx n)) 0) = Inr c"
    and lc: "length c = Suc (idx n)" and fc: "\<forall>k\<le>idx n. c ! k = word_of_nat (fib k)"
    using fibRecursiveCache_fills[OF assms(1), of "replicate (Suc (idx n)) 0"] by auto
  have "slice_get c n = Inr (c ! idx n)"
    using nn lc by (simp add: slice_get_def in_bounds_def idx_def)
  then show ?thesis using mk c fc by (simp add: FibRecursiveCache_def)
qed

lemma FibRecursiveCache_0: "FibRecursiveCache 0 = Inl IndexOutOfRange"
  by (simp add: FibRecursiveCache_def make_slice_def fibRecursiveCache.simps[of 0]
      slice_set_def in_bounds_def word_sless_alt word_sle_eq)

lemma FibRecursiveCache_max: "FibRecursiveCache 9223372036854775807 = Inl MakeSliceLenOutOfRange"
  by (simp add: FibRecursiveCache_def make_slice_def word_sless_alt)

lemma FibRecursiveCache_no_index_panic:
  assumes "1 \<le>s n"
  shows "FibRecursiveCache n \<noteq> Inl IndexOutOfRange"
proof (cases "sint n < 9223372036854775807")
  case True
  then show ?thesis using FibRecursiveCache_fib[OF assms] by simp
next
  case False
  then have "sint n = 9223372036854775807" using sint_range[of n] by simp
  then have "n = word_of_int 9223372036854775807" by (rule word_eq_of_sint)
  then have "n = 9223372036854775807" by simp
  then show ?thesis by (simp add: FibRecursiveCache_max)
qed


subsection \<open>Matrix products and powers\<close>

lemma mat_update_all:
  "(r::mat)\<lparr>m00 := x, m01 := y, m10 := z, m11 := w\<rparr> = \<lparr>m00 = x, m01 = y, m10 = z, m11 = w\<rparr>"
  by (cases r) simp

lemma fibMultiply_eq:
  "fibMultiply F M s = s\<lparr>heap := (heap s)(F := mat_mul (heap s F) (heap s M))\<rparr>"
  by (simp add: fibMultiply_def store_cell_def mat_mul_def Let_def mat_update_all)

lemma mat_mul_assoc: "mat_mul (mat_mul a b) c = mat_mul a (mat_mul b c)"
  by (simp add: mat_mul_def algebra_simps)

lemma mat_mul_one_left: "mat_mul mat_one a = a"
  by (simp add: mat_mul_def mat_one_def)

lemma mat_mul_one_right: "mat_mul a mat_one = a"
  by (simp add: mat_mul_def mat_one_def)

lemma mat_pow_add: "mat_pow a (j + k) = mat_mul (mat_pow a j) (mat_pow a k)"
proof (induction k)
  case 0
  show ?case by (simp add: mat_mul_one_right)
next
  case (Suc k)
  then show ?case by (simp add: mat_mul_assoc)
qed

lemma mat_pow_1: "mat_pow a (Suc 0) = a"
  by (simp add: mat_mul_one_left)

lemma mat_pow_Suc_left: "mat_pow a (Suc k) = mat_mul a (mat_pow a k)"
  using mat_pow_add[of a "Suc 0" k] by (simp add: mat_mul_one_left)

lemma mat_pow_base:
  "mat_pow base_matrix (Suc k) =
     \<lparr>m00 = word_of_nat (fib (Suc (Suc k))), m01 = word_of_nat (fib (Suc k)),
      m10 = word_of_nat (fib (Suc k)), m11 = word_of_nat (fib k)\<rparr>"
proof (induction k)
  case 0
  show ?case by (simp add: mat_mul_def mat_one_def base_matrix_def)
next
  case (Suc k)
  have "mat_pow base_matrix (Suc (Suc k)) = mat_mul (mat_pow base_matrix (Suc k)) base_matrix"
    by simp
  also have "\<dots> = \<lparr>m00 = word_of_nat (fib (Suc (Suc (Suc k)))), m01 = word_of_nat (fib (Suc (Suc k))),
      m10 = word_of_nat (fib (Suc (Suc k))), m11 = word_of_nat (fib (Suc k))\<rparr>"
    unfolding Suc.IH by (simp add: mat_mul_def base_matrix_def)
  finally show ?case .
qed

lemma m00_mat_pow_base: "m00 (mat_pow base_matrix k) = word_of_nat (fib (Suc k))"
proof (cases k)
  case 0
  then show ?thesis by (simp add: mat_one_def)
next
  case (Suc j)
  then show ?thesis by (simp only: mat_pow_base) simp
qed


subsection \<open>The recursive matrix power\<close>

lemma sint_of_int_small:
  "- 9223372036854775808 \<le> k \<Longrightarrow> k < 9223372036854775808 \<Longrightarrow> sint (word_of_int k :: go_int) = k"
  by (simp add: signed_of_int signed_take_bit_int_eq_self)

lemma go_div_2: "0 \<le>s n \<Longrightarrow> sint (go_div n 2) = sint n div 2"
proof -
  assume "0 \<le>s n"
  then have nn: "0 \<le> sint n" by (simp add: word_sle_eq)
  then have "sint n sdiv sint (2::go_int) = sint n div 2"
    by (simp add: signed_divide_int_def sgn_if)
  moreover have "- 9223372036854775808 \<le> sint n div 2" "sint n div 2 < 9223372036854775808"
    using nn sint_range[of n] by simp_all
  ultimately show ?thesis by (simp add: go_div_def sint_of_int_small)
qed

lemma go_mod_2: "0 \<le>s n \<Longrightarrow> (go_mod n 2 \<noteq> 0) = odd (sint n)"
proof -
  assume "0 \<le>s n"
  then have nn: "0 \<le> sint n" by (simp add: word_sle_eq)
  then have e: "sint n smod sint (2::go_int) = sint n mod 2"
    by (simp add: signed_modulo_int_def sgn_if)
  show ?thesis
  proof (cases "even (sint n)")
    case True
    then have "sint n mod 2 = 0" by simp
    then show ?thesis using True e by (simp add: go_mod_def)
  next
    case False
    then have "sint n mod 2 = 1" by (simp add: odd_iff_mod_2_eq_one)
    then show ?thesis using False e by (simp add: go_mod_def)
  qed
qed

lemma go_div_2_idx: "0 \<le>s n \<Longrightarrow> 0 \<le>s go_div n 2 \<and> idx (go_div n 2) = idx n div 2"
  using go_div_2[of n]
  by (simp add: idx_def word_sle_eq nat_div_distrib)

lemma fibMultiply_heap_F: "heap (fibMultiply F M s) F = mat_mul (heap s F) (heap s M)"
  by (simp add: fibMultiply_eq)

lemma fibMultiply_heap_other: "a \<noteq> F \<Longrightarrow> heap (fibMultiply F M s) a = heap s a"
  by (simp add: fibMultiply_eq)

lemma fibMultiply_next_free: "next_free (fibMultiply F M s) = next_free s"
  by (simp add: fibMultiply_eq)

lemma fibPowerRecursive_base: "n = 0 \<or> n = 1 \<Longrightarrow> fibPowerRecursive F n s = Some s"
  by (subst fibPowerRecursive.simps) simp

lemma fibPowerRecursive_step:
  "\<not> (n = 0 \<or> n = 1) \<Longrightarrow>
   fibPowerRecursive F n s =
     Option.bind (fibPowerRecursive F (go_div n 2) (snd (alloc base_matrix s)))
       (\<lambda>s2. if go_mod n 2 \<noteq> 0
             then Some (fibMultiply F (fst (alloc base_matrix s)) (fibMultiply F F s2))
             else Some (fibMultiply F F s2))"
  by (subst fibPowerRecursive.simps) (simp add: case_prod_beta Let_def)

lemma not_base_ge2: "0 \<le>s n \<Longrightarrow> \<not> (n = 0 \<or> n = 1) \<Longrightarrow> 2 \<le> idx n"
proof -
  assume a: "0 \<le>s n" "\<not> (n = 0 \<or> n = 1)"
  have "sint n \<noteq> 0" using a(2) word_eq_of_sint[of n 0] by auto
  moreover have "sint n \<noteq> 1" using a(2) word_eq_of_sint[of n 1] by auto
  ultimately show ?thesis using a(1) by (simp add: idx_def word_sle_eq)
qed

text \<open>Every call of \<open>fibPowerRecursive\<close> with a non-negative exponent returns.\<close>

lemma fibPowerRecursive_returns:
  "0 \<le>s n \<Longrightarrow> \<exists>s'. fibPowerRecursive F n s = Some s'"
proof (induction "idx n" arbitrary: n s rule: less_induct)
  case less
  show ?case
  proof (cases "n = 0 \<or> n = 1")
    case True
    then show ?thesis by (simp add: fibPowerRecursive_base)
  next
    case False
    have ge: "2 \<le> idx n" by (rule not_base_ge2[OF less.prems False])
    have h: "0 \<le>s go_div n 2" "idx (go_div n 2) = idx n div 2"
      using go_div_2_idx[OF less.prems] by simp_all
    have "idx (go_div n 2) < idx n" using ge h(2) by simp
    from less.hyps[OF this h(1)] obtain s2 where
      "fibPowerRecursive F (go_div n 2) (snd (alloc base_matrix s)) = Some s2" by blast
    then show ?thesis by (simp add: fibPowerRecursive_step[OF False])
  qed
qed

lemma fibPowerRecursive_pow:
  "0 \<le>s n \<Longrightarrow> heap s F = base_matrix \<Longrightarrow> F < next_free s \<Longrightarrow>
   \<exists>s'. fibPowerRecursive F n s = Some s'
        \<and> heap s' F = mat_pow base_matrix (max 1 (idx n))
        \<and> next_free s \<le> next_free s'
        \<and> (\<forall>a<next_free s. a \<noteq> F \<longrightarrow> heap s' a = heap s a)"
proof (induction "idx n" arbitrary: n s rule: less_induct)
  case less
  show ?case
  proof (cases "n = 0 \<or> n = 1")
    case True
    then have "max 1 (idx n) = Suc 0" by auto
    then show ?thesis using True less.prems
      by (simp add: fibPowerRecursive_base mat_mul_one_left)
  next
    case False
    have ge: "2 \<le> idx n" by (rule not_base_ge2[OF less.prems(1) False])
    have h: "0 \<le>s go_div n 2" "idx (go_div n 2) = idx n div 2"
      using go_div_2_idx[OF less.prems(1)] by simp_all
    have lt: "idx (go_div n 2) < idx n" using ge h(2) by simp
    have h1: "max 1 (idx (go_div n 2)) = idx n div 2" using ge h(2) by simp
    let ?M = "fst (alloc base_matrix s)"
    let ?s1 = "snd (alloc base_matrix s)"
    have M: "?M = next_free s" by (simp add: alloc_def)
    have MF: "?M \<noteq> F" using less.prems(3) M by simp
    have s1F: "heap ?s1 F = base_matrix" using less.prems(2,3) by (simp add: alloc_def)
    have s1M: "heap ?s1 ?M = base_matrix" by (simp add: alloc_def)
    have s1n: "next_free ?s1 = Suc (next_free s)" by (simp add: alloc_def)
    have s1o: "\<forall>a<next_free s. heap ?s1 a = heap s a" by (simp add: alloc_def)
    have "F < next_free ?s1" using less.prems(3) s1n by simp
    from less.hyps[OF lt h(1) s1F this] obtain s2 where
      r: "fibPowerRecursive F (go_div n 2) ?s1 = Some s2"
      and s2F: "heap s2 F = mat_pow base_matrix (idx n div 2)"
      and s2n: "next_free ?s1 \<le> next_free s2"
      and s2o: "\<forall>a<next_free ?s1. a \<noteq> F \<longrightarrow> heap s2 a = heap ?s1 a"
      unfolding h1 by blast
    have s2M: "heap s2 ?M = base_matrix" using s2o MF s1M s1n M by simp
    let ?s3 = "fibMultiply F F s2"
    have s3F: "heap ?s3 F = mat_pow base_matrix (idx n div 2 + idx n div 2)"
      by (simp add: fibMultiply_heap_F s2F mat_pow_add)
    have s3o: "\<forall>a. a \<noteq> F \<longrightarrow> heap ?s3 a = heap s2 a"
      by (simp add: fibMultiply_heap_other)
    have s3n: "next_free ?s3 = next_free s2" by (rule fibMultiply_next_free)
    have old: "\<forall>a<next_free s. a \<noteq> F \<longrightarrow> heap s2 a = heap s a"
      using s2o s1o s1n by simp
    show ?thesis
    proof (cases "go_mod n 2 \<noteq> 0")
      case True
      then have "odd (sint n)" using go_mod_2[OF less.prems(1)] by simp
      then have "odd (idx n)" using less.prems(1) by (simp add: idx_def word_sle_eq even_nat_iff)
      then have i: "Suc (idx n div 2 + idx n div 2) = idx n" by presburger
      let ?s4 = "fibMultiply F ?M ?s3"
      have res: "fibPowerRecursive F n s = Some ?s4"
        using True r by (simp add: fibPowerRecursive_step[OF False])
      have s3M: "heap ?s3 ?M = base_matrix" using s3o MF s2M by simp
      have "heap ?s4 F = mat_mul (heap ?s3 F) (heap ?s3 ?M)" by (rule fibMultiply_heap_F)
      also have "\<dots> = mat_pow base_matrix (Suc (idx n div 2 + idx n div 2))"
        unfolding s3F s3M by simp
      finally have "heap ?s4 F = mat_pow base_matrix (max 1 (idx n))" using i ge by simp
      moreover have "next_free s \<le> next_free ?s4"
        using s3n s2n s1n by (simp add: fibMultiply_next_free)
      moreover have "\<forall>a<next_free s. a \<noteq> F \<longrightarrow> heap ?s4 a = heap s a"
        using old s3o by (simp add: fibMultiply_heap_other)
      ultimately show ?thesis using res by simp
    next
      case False2: False
      then have "even (sint n)" using go_mod_2[OF less.prems(1)] by simp
      then have "even (idx n)" using less.prems(1) by (simp add: idx_def word_sle_eq even_nat_iff)
      then have i: "idx n div 2 + idx n div 2 = idx n" by presburger
      have res: "fibPowerRecursive F n s = Some ?s3"
        using False2 r by (simp add: fibPowerRecursive_step[OF False])
      have "heap ?s3 F = mat_pow base_matrix (max 1 (idx n))" using s3F i ge by simp
      moreover have "next_free s \<le> next_free ?s3" using s3n s2n s1n by simp
      moreover have "\<forall>a<next_free s. a \<noteq> F \<longrightarrow> heap ?s3 a = heap s a"
        using old s3o by simp
      ultimately show ?thesis using res by simp
    qed
  qed
qed


subsection \<open>The linear matrix power, and both matrix variants\<close>

lemma fibPower_loop_exit: "\<not> i \<le>s n \<Longrightarrow> fibPower_loop F M n i s = Some s"
  by (subst fibPower_loop.simps) simp

lemma fibPower_loop_step:
  "i \<le>s n \<Longrightarrow> fibPower_loop F M n i s = fibPower_loop F M n (i + 1) (fibMultiply F M s)"
  by (subst fibPower_loop.simps) simp

text \<open>
  Below the largest \<open>int\<close> the loop of \<open>fibPower\<close> returns, after one multiplication by
  the matrix at \<open>M\<close> for every \<open>i\<close> from the start value up to \<open>n\<close>.
\<close>

lemma fibPower_loop_pow:
  "sint n < 9223372036854775807 \<Longrightarrow> M \<noteq> F \<Longrightarrow> heap s M = base_matrix \<Longrightarrow>
   d = nat (sint n + 1 - sint i) \<Longrightarrow>
   \<exists>s'. fibPower_loop F M n i s = Some s'
        \<and> heap s' F = mat_mul (heap s F) (mat_pow base_matrix d)
        \<and> next_free s' = next_free s
        \<and> (\<forall>a. a \<noteq> F \<longrightarrow> heap s' a = heap s a)"
proof (induction d arbitrary: i s)
  case 0
  then have "\<not> i \<le>s n" by (simp add: word_sle_eq)
  then show ?case by (simp add: fibPower_loop_exit mat_mul_one_right)
next
  case (Suc d)
  from Suc.prems(4) have le: "sint i \<le> sint n" by simp
  then have i_le: "i \<le>s n" by (simp add: word_sle_eq)
  have si: "sint (i + 1) = sint i + 1"
    using le Suc.prems(1) sint_range[of i] by (simp add: sint_add_no_wrap)
  let ?s1 = "fibMultiply F M s"
  have s1M: "heap ?s1 M = base_matrix"
    using Suc.prems(2,3) by (simp add: fibMultiply_heap_other)
  have d: "d = nat (sint n + 1 - sint (i + 1))" using Suc.prems(4) si by simp
  from Suc.IH[OF Suc.prems(1,2) s1M d] obtain s' where
    r: "fibPower_loop F M n (i + 1) ?s1 = Some s'"
    and hF: "heap s' F = mat_mul (heap ?s1 F) (mat_pow base_matrix d)"
    and nf: "next_free s' = next_free ?s1"
    and ot: "\<forall>a. a \<noteq> F \<longrightarrow> heap s' a = heap ?s1 a" by blast
  have "heap s' F = mat_mul (mat_mul (heap s F) base_matrix) (mat_pow base_matrix d)"
    unfolding hF fibMultiply_heap_F Suc.prems(3) ..
  also have "\<dots> = mat_mul (heap s F) (mat_pow base_matrix (Suc d))"
    unfolding mat_mul_assoc mat_pow_Suc_left ..
  finally have "heap s' F = mat_mul (heap s F) (mat_pow base_matrix (Suc d))" .
  moreover have "next_free s' = next_free s" using nf by (simp add: fibMultiply_next_free)
  moreover have "\<forall>a. a \<noteq> F \<longrightarrow> heap s' a = heap s a"
    using ot by (simp add: fibMultiply_heap_other)
  moreover have "fibPower_loop F M n i s = Some s'"
    using r by (simp add: fibPower_loop_step[OF i_le])
  ultimately show ?case by simp
qed

lemma fibPower_pow:
  assumes "sint n < 9223372036854775807" "heap s F = base_matrix" "F < next_free s"
  shows "\<exists>s'. fibPower F n s = Some s'
           \<and> heap s' F = mat_pow base_matrix (Suc (nat (sint n - 1)))"
proof -
  let ?M = "fst (alloc base_matrix s)"
  let ?s1 = "snd (alloc base_matrix s)"
  have MF: "?M \<noteq> F" using assms(3) by (simp add: alloc_def)
  have s1M: "heap ?s1 ?M = base_matrix" by (simp add: alloc_def)
  have s1F: "heap ?s1 F = base_matrix" using assms(2,3) by (simp add: alloc_def)
  have d: "nat (sint n - 1) = nat (sint n + 1 - sint (2::go_int))" by simp
  from fibPower_loop_pow[OF assms(1) MF s1M d] obtain s' where
    r: "fibPower_loop F ?M n 2 ?s1 = Some s'"
    and hF: "heap s' F = mat_mul (heap ?s1 F) (mat_pow base_matrix (nat (sint n - 1)))"
    by blast
  have "heap s' F = mat_pow base_matrix (Suc (nat (sint n - 1)))"
    unfolding hF s1F mat_pow_Suc_left ..
  moreover have "fibPower F n s = Some s'" using r by (simp add: fibPower_def case_prod_beta)
  ultimately show ?thesis by simp
qed

lemma fib_Suc_max: "1 \<le> k \<Longrightarrow> fib (Suc (max 1 (k - 1))) = fib k"
proof -
  assume "1 \<le> k"
  then have "k = 1 \<or> 2 \<le> k" by auto
  then show ?thesis
  proof
    assume "k = 1" then show ?thesis by simp
  next
    assume "2 \<le> k"
    then have "Suc (max 1 (k - 1)) = k" by simp
    then show ?thesis by simp
  qed
qed

lemma FibPowerMatrix_0: "FibPowerMatrix 0 = Some 0"
  by (simp add: FibPowerMatrix_def alloc_def)

lemma FibPowerMatrixRecursive_0: "FibPowerMatrixRecursive 0 = Some 0"
  by (simp add: FibPowerMatrixRecursive_def alloc_def)

lemma alloc_empty:
  "heap (snd (alloc base_matrix empty_store)) (fst (alloc base_matrix empty_store)) = base_matrix"
  "fst (alloc base_matrix empty_store) < next_free (snd (alloc base_matrix empty_store))"
  by (simp_all add: alloc_def empty_store_def)

text \<open>What is left in \<open>F\<close> is the power \<open>max 1 (n - 1)\<close> of the base matrix.\<close>

lemma FibPowerMatrixRecursive_pow:
  assumes "1 \<le>s n"
  shows "FibPowerMatrixRecursive n = Some (m00 (mat_pow base_matrix (max 1 (idx n - 1))))"
proof -
  let ?F = "fst (alloc base_matrix empty_store)"
  let ?s = "snd (alloc base_matrix empty_store)"
  from assms have n0: "n \<noteq> 0" by (auto simp: word_sle_eq)
  have p: "0 \<le>s n - 1" using assms sint_dec[OF assms] by (simp add: word_sle_eq)
  have i: "idx (n - 1) = idx n - 1" using idx_dec[OF assms] by simp
  from fibPowerRecursive_pow[OF p alloc_empty] obtain s' where
    "fibPowerRecursive ?F (n - 1) ?s = Some s'"
    "heap s' ?F = mat_pow base_matrix (max 1 (idx (n - 1)))" by blast
  then show ?thesis using n0 i by (simp add: FibPowerMatrixRecursive_def case_prod_beta)
qed

lemma FibPowerMatrix_pow:
  assumes "1 \<le>s n"
  shows "FibPowerMatrix n = Some (m00 (mat_pow base_matrix (max 1 (idx n - 1))))"
proof -
  let ?F = "fst (alloc base_matrix empty_store)"
  let ?s = "snd (alloc base_matrix empty_store)"
  from assms have n0: "n \<noteq> 0" by (auto simp: word_sle_eq)
  have s1: "sint (n - 1) = sint n - 1" by (rule sint_dec[OF assms])
  then have lt: "sint (n - 1) < 9223372036854775807" using sint_range[of n] by simp
  have e: "Suc (nat (sint (n - 1) - 1)) = max 1 (idx n - 1)"
    using assms s1 unfolding idx_def word_sle_eq max_def by auto
  from fibPower_pow[OF lt alloc_empty] obtain s' where
    "fibPower ?F (n - 1) ?s = Some s'"
    "heap s' ?F = mat_pow base_matrix (Suc (nat (sint (n - 1) - 1)))" by blast
  then show ?thesis using n0 e by (simp add: FibPowerMatrix_def case_prod_beta)
qed

lemma idx_ge1: "1 \<le>s n \<Longrightarrow> 1 \<le> idx n"
  by (simp add: idx_def word_sle_eq)

lemma FibPowerMatrixRecursive_fib:
  "0 \<le>s n \<Longrightarrow> FibPowerMatrixRecursive n = Some (word_of_nat (fib (idx n)))"
proof -
  assume "0 \<le>s n"
  then have "n = 0 \<or> 1 \<le>s n" by (rule nonneg_cases)
  then show ?thesis
  proof
    assume "n = 0" then show ?thesis by (simp add: FibPowerMatrixRecursive_0)
  next
    assume a: "1 \<le>s n"
    show ?thesis
      by (simp only: FibPowerMatrixRecursive_pow[OF a] m00_mat_pow_base fib_Suc_max[OF idx_ge1[OF a]])
  qed
qed

lemma FibPowerMatrix_fib:
  "0 \<le>s n \<Longrightarrow> FibPowerMatrix n = Some (word_of_nat (fib (idx n)))"
proof -
  assume "0 \<le>s n"
  then have "n = 0 \<or> 1 \<le>s n" by (rule nonneg_cases)
  then show ?thesis
  proof
    assume "n = 0" then show ?thesis by (simp add: FibPowerMatrix_0)
  next
    assume a: "1 \<le>s n"
    show ?thesis
      by (simp only: FibPowerMatrix_pow[OF a] m00_mat_pow_base fib_Suc_max[OF idx_ge1[OF a]])
  qed
qed


subsection \<open>Concrete values used at the examples\<close>

lemma idx_numeral: "idx 10 = 10" "idx 93 = 93" "idx 3 = 3" "idx 5 = 5" "idx 200 = 200"
  by (simp_all add: idx_def)

lemma word_fib_93: "(word_of_nat (fib 93) :: go_int) = - 6246583658587674878"
  by (simp add: fib_93)

lemma sint_wrapped: "sint (- 6246583658587674878 :: go_int) = - 6246583658587674878"
  by simp

lemma unat_word_fib: "unat (word_of_nat k :: go_int) = k mod 2 ^ 64"
  by (simp add: unat_of_nat)

lemma ge1_ge0: "1 \<le>s (n::go_int) \<Longrightarrow> 0 \<le>s n"
  by (simp add: word_sle_eq)

section \<open>The claims\<close>

subsection \<open>C1: FibIterative\<close>

text \<open>
  C1, as amended. For every \<open>n \<ge> 1\<close>, \<open>FibIterative(n)\<close> is \<open>F(n)\<close> reduced modulo
  \<open>2^64\<close>, and it is \<open>F(n)\<close> itself for \<open>1 \<le> n \<le> 92\<close>. For \<open>n = 0\<close> the guard
  \<open>i < n-1\<close> is \<open>0 < -1\<close>, the loop body never runs, and the initial \<open>second = 1\<close> is
  returned, where \<open>F(0) = 0\<close>.
\<close>

theorem FibIterative_result:
  assumes "1 \<le>s n"
  shows "unat (FibIterative n) = fib (idx n) mod 2 ^ 64
       \<and> (n \<le>s 92 \<longrightarrow> sint (FibIterative n) = int (fib (idx n)))
       \<and> \<not> (0 <s (0::go_int) - 1)
       \<and> FibIterative 0 = 1"
proof -
  have e: "FibIterative n = word_of_nat (fib (idx n))" by (rule FibIterative_fib[OF assms])
  have "unat (FibIterative n) = fib (idx n) mod 2 ^ 64" unfolding e by (rule unat_word_fib)
  moreover have "n \<le>s 92 \<longrightarrow> sint (FibIterative n) = int (fib (idx n))"
    unfolding e using fib_exact[OF ge1_ge0[OF assms]] by blast
  moreover have "\<not> (0 <s (0::go_int) - 1)" by (simp add: word_sless_alt)
  ultimately show ?thesis using FibIterative_0 by blast
qed

text \<open>The theorem at \<open>n = 10\<close>: \<open>FibIterative(10) = 55\<close>.\<close>

theorem FibIterative_result_witness:
  "1 \<le>s (10::go_int) \<and> (10::go_int) \<le>s 92 \<and> sint (FibIterative 10) = 55 \<and> FibIterative 0 = 1"
proof -
  have h: "1 \<le>s (10::go_int)" by (simp add: word_sle_eq)
  have b: "(10::go_int) \<le>s 92" by (simp add: word_sle_eq)
  show ?thesis using h b FibIterative_result[OF h] by (simp add: idx_numeral fib_10)
qed

text \<open>
  C1 as stated fails at \<open>n = 93\<close>: \<open>F(93)\<close> is above the largest \<open>int\<close> and the
  function returns a negative number.
\<close>

theorem FibIterative_overflow_counterexample:
  "1 \<le>s (93::go_int) \<and> sint (FibIterative 93) = - 6246583658587674878
   \<and> int (fib 93) = 12200160415121876738 \<and> sint (FibIterative 93) \<noteq> int (fib 93)"
proof -
  have h: "1 \<le>s (93::go_int)" by (simp add: word_sle_eq)
  have "FibIterative 93 = - 6246583658587674878"
    using FibIterative_fib[OF h] by (simp only: idx_numeral word_fib_93)
  then show ?thesis using h by (simp add: fib_93)
qed

subsection \<open>C2: FibRecursiveCache\<close>

lemma FibRecursiveCache_93: "FibRecursiveCache 93 = Inr (- 6246583658587674878)"
proof -
  have h: "1 \<le>s (93::go_int)" by (simp add: word_sle_eq)
  have b: "sint (93::go_int) < 9223372036854775807" by simp
  show ?thesis using FibRecursiveCache_fib[OF h b] by (simp only: idx_numeral word_fib_93)
qed

lemma fibRecursiveCache_3: "fibRecursiveCache 3 [0, 0, 0, 0] = Inr [0, 1, 1, 2]"
  by (simp add: fibRecursiveCache.simps[of 3] fibRecursiveCache.simps[of 2]
      fibRecursiveCache.simps[of 1] slice_set_def slice_get_def in_bounds_def
      word_sless_alt word_sle_eq)

text \<open>
  C2, as amended. For every \<open>n\<close> from 1 to 92, \<open>FibRecursiveCache(n)\<close> returns \<open>F(n)\<close>,
  and for every \<open>n \<ge> 1\<close> below the largest \<open>int\<close> it returns \<open>F(n)\<close> reduced modulo
  \<open>2^64\<close>: it allocates \<open>n + 1\<close> integers, the helper leaves \<open>cache[0] = 0\<close>,
  \<open>cache[1] = 1\<close> and \<open>cache[k] = cache[k-1] + cache[k-2]\<close> for each \<open>k\<close> from 2 to
  \<open>n\<close>, and the entry at index \<open>n\<close> is returned; in particular
  \<open>FibRecursiveCache(1) = 1\<close>. Nothing is said about \<open>n = 0\<close>.
\<close>

theorem FibRecursiveCache_result:
  assumes "1 \<le>s n" and "n <s 9223372036854775807"
  shows "\<exists>c. make_slice (n + 1) = Inr (replicate (Suc (idx n)) 0)
           \<and> fibRecursiveCache n (replicate (Suc (idx n)) 0) = Inr c
           \<and> length c = Suc (idx n)
           \<and> c ! 0 = 0 \<and> c ! 1 = 1
           \<and> (\<forall>k. 2 \<le> k \<and> k \<le> idx n \<longrightarrow> c ! k = c ! (k - 1) + c ! (k - 2))
           \<and> (\<forall>k\<le>idx n. unat (c ! k) = fib k mod 2 ^ 64)
           \<and> FibRecursiveCache n = Inr (c ! idx n)
           \<and> (n \<le>s 92 \<longrightarrow> sint (c ! idx n) = int (fib (idx n)))
           \<and> FibRecursiveCache 1 = Inr 1"
proof -
  have n0: "0 \<le>s n" by (rule ge1_ge0[OF assms(1)])
  have b: "sint n < 9223372036854775807" using assms(2) by (simp add: word_sless_alt)
  have mk: "make_slice (n + 1) = Inr (replicate (Suc (idx n)) 0)"
    by (rule make_slice_Suc[OF n0 b])
  obtain c where c: "fibRecursiveCache n (replicate (Suc (idx n)) 0) = Inr c"
    and lc: "length c = Suc (idx n)" and fc: "\<forall>k\<le>idx n. c ! k = word_of_nat (fib k)"
    using fibRecursiveCache_fills[OF assms(1), of "replicate (Suc (idx n)) 0"] by auto
  have i1: "1 \<le> idx n" by (rule idx_ge1[OF assms(1)])
  have c0: "c ! 0 = 0" using fc by simp
  have c1: "c ! 1 = 1" using fc i1 by simp
  have rec: "\<forall>k. 2 \<le> k \<and> k \<le> idx n \<longrightarrow> c ! k = c ! (k - 1) + c ! (k - 2)"
  proof (intro allI impI)
    fix k assume k: "2 \<le> k \<and> k \<le> idx n"
    then obtain j where j: "k = Suc (Suc j)" by (metis add_2_eq_Suc le_Suc_ex)
    have le: "k \<le> idx n" "k - 1 \<le> idx n" "k - 2 \<le> idx n" using k by auto
    have "c ! k = word_of_nat (fib k)" "c ! (k - 1) = word_of_nat (fib (k - 1))"
      "c ! (k - 2) = word_of_nat (fib (k - 2))"
      using fc[rule_format, OF le(1)] fc[rule_format, OF le(2)] fc[rule_format, OF le(3)]
      by simp_all
    then show "c ! k = c ! (k - 1) + c ! (k - 2)" by (simp add: j)
  qed
  have un: "\<forall>k\<le>idx n. unat (c ! k) = fib k mod 2 ^ 64"
    using fc by (simp add: unat_word_fib)
  have r: "FibRecursiveCache n = Inr (c ! idx n)"
    using FibRecursiveCache_fib[OF assms(1) b] fc by simp
  have ex: "n \<le>s 92 \<longrightarrow> sint (c ! idx n) = int (fib (idx n))"
    using fib_exact[OF n0] fc by simp
  have one: "FibRecursiveCache 1 = Inr 1"
  proof -
    have "1 \<le>s (1::go_int)" "sint (1::go_int) < 9223372036854775807" by (simp_all add: word_sle_eq)
    from FibRecursiveCache_fib[OF this] show ?thesis by simp
  qed
  from mk c lc c0 c1 rec un r ex one show ?thesis by blast
qed

text \<open>The theorem at \<open>n = 3\<close>: the cache ends as \<open>[0, 1, 1, 2]\<close> and 2 is returned.\<close>

theorem FibRecursiveCache_result_witness:
  "1 \<le>s (3::go_int) \<and> (3::go_int) <s 9223372036854775807 \<and> (3::go_int) \<le>s 92
   \<and> make_slice (3 + 1) = Inr [0, 0, 0, 0]
   \<and> fibRecursiveCache 3 [0, 0, 0, 0] = Inr [0, 1, 1, 2]
   \<and> FibRecursiveCache 3 = Inr 2"
proof -
  have h: "1 \<le>s (3::go_int)" and b: "(3::go_int) <s 9223372036854775807"
    and e: "(3::go_int) \<le>s 92"
    by (simp_all add: word_sle_eq word_sless_alt)
  have r: "replicate (Suc (idx 3)) (0::go_int) = [0, 0, 0, 0]"
    by (simp add: idx_numeral numeral_3_eq_3)
  from FibRecursiveCache_result[OF h b] obtain c where
    m: "make_slice (3 + 1) = Inr (replicate (Suc (idx 3)) 0)"
    and f: "fibRecursiveCache 3 (replicate (Suc (idx 3)) 0) = Inr c"
    and v: "FibRecursiveCache 3 = Inr (c ! idx 3)" by blast
  from f have c: "c = [0, 1, 1, 2]" unfolding r fibRecursiveCache_3 by simp
  have "FibRecursiveCache 3 = Inr 2" using v unfolding c by (simp add: idx_numeral)
  moreover have "make_slice (3 + 1) = Inr [0, 0, 0, 0]" using m unfolding r .
  ultimately show ?thesis using h b e fibRecursiveCache_3 by blast
qed

text \<open>
  C2 as stated fails at \<open>n = 0\<close>, where the call panics instead of returning 0, and at
  \<open>n = 93\<close>, where the sum has wrapped.
\<close>

theorem FibRecursiveCache_counterexample:
  "FibRecursiveCache 0 = Inl IndexOutOfRange
   \<and> FibRecursiveCache 0 \<noteq> Inr (word_of_nat (fib 0))
   \<and> FibRecursiveCache 93 = Inr (- 6246583658587674878)
   \<and> sint (- 6246583658587674878 :: go_int) \<noteq> int (fib 93)"
  by (simp add: FibRecursiveCache_0 FibRecursiveCache_93 fib_93)

subsection \<open>C3: FibPowerMatrixRecursive\<close>

lemma m00_pow_pred: "1 \<le> k \<Longrightarrow> m00 (mat_pow base_matrix (k - 1)) = word_of_nat (fib k)"
  by (cases k) (simp_all add: m00_mat_pow_base)

text \<open>
  C3, as amended. For every \<open>n \<ge> 0\<close>, \<open>FibPowerMatrixRecursive(n)\<close> returns \<open>F(n)\<close>
  reduced modulo \<open>2^64\<close>, and \<open>F(n)\<close> itself for \<open>0 \<le> n \<le> 92\<close>: \<open>n = 0\<close> is
  short-circuited to 0, and otherwise the result is the top-left entry of
  \<open>[[1,1],[1,0]]\<close> raised to the power \<open>n - 1\<close>. \<open>fibPowerRecursive\<close> leaves the matrix
  unchanged for exponent 0 or 1, and called on the base matrix with exponent \<open>n\<close> it
  leaves the power \<open>max 1 n\<close> of the base matrix in \<open>F\<close>.
\<close>

theorem FibPowerMatrixRecursive_result:
  assumes "0 \<le>s n"
  shows "FibPowerMatrixRecursive 0 = Some 0
       \<and> (\<exists>v. FibPowerMatrixRecursive n = Some v
              \<and> unat v = fib (idx n) mod 2 ^ 64
              \<and> (n \<le>s 92 \<longrightarrow> sint v = int (fib (idx n)))
              \<and> (1 \<le>s n \<longrightarrow> v = m00 (mat_pow base_matrix (idx n - 1))))
       \<and> fibPowerRecursive F 0 s = Some s
       \<and> fibPowerRecursive F 1 s = Some s
       \<and> (heap s F = base_matrix \<and> F < next_free s \<longrightarrow>
            (\<exists>s'. fibPowerRecursive F n s = Some s'
                 \<and> heap s' F = mat_pow base_matrix (max 1 (idx n))))"
proof -
  let ?v = "word_of_nat (fib (idx n)) :: go_int"
  have r: "FibPowerMatrixRecursive n = Some ?v" by (rule FibPowerMatrixRecursive_fib[OF assms])
  have u: "unat ?v = fib (idx n) mod 2 ^ 64" by (rule unat_word_fib)
  have e: "n \<le>s 92 \<longrightarrow> sint ?v = int (fib (idx n))" using fib_exact[OF assms] by blast
  have p: "1 \<le>s n \<longrightarrow> ?v = m00 (mat_pow base_matrix (idx n - 1))"
    using m00_pow_pred[OF idx_ge1] by simp
  have b: "fibPowerRecursive F 0 s = Some s" "fibPowerRecursive F 1 s = Some s"
    by (simp_all add: fibPowerRecursive_base)
  have h: "heap s F = base_matrix \<and> F < next_free s \<longrightarrow>
            (\<exists>s'. fibPowerRecursive F n s = Some s'
                 \<and> heap s' F = mat_pow base_matrix (max 1 (idx n)))"
    using fibPowerRecursive_pow[OF assms, of s F] by blast
  from r u e p b h FibPowerMatrixRecursive_0 show ?thesis by blast
qed

text \<open>
  The theorem at \<open>n = 10\<close>, with \<open>F\<close> the first address of a store that holds the base
  matrix there.
\<close>

theorem FibPowerMatrixRecursive_result_witness:
  "0 \<le>s (10::go_int) \<and> (10::go_int) \<le>s 92 \<and> 1 \<le>s (10::go_int)
   \<and> heap (snd (alloc base_matrix empty_store)) 0 = base_matrix
   \<and> 0 < next_free (snd (alloc base_matrix empty_store))
   \<and> (\<exists>v. FibPowerMatrixRecursive 10 = Some v \<and> sint v = 55
            \<and> v = m00 (mat_pow base_matrix (idx 10 - 1)))
   \<and> (\<exists>s'. fibPowerRecursive 0 10 (snd (alloc base_matrix empty_store)) = Some s'
             \<and> heap s' 0 = mat_pow base_matrix (max 1 (idx 10)))
   \<and> FibPowerMatrixRecursive 0 = Some 0"
proof -
  have h: "0 \<le>s (10::go_int)" and b: "(10::go_int) \<le>s 92" and c: "1 \<le>s (10::go_int)"
    by (simp_all add: word_sle_eq)
  have a: "heap (snd (alloc base_matrix empty_store)) 0 = base_matrix"
    "0 < next_free (snd (alloc base_matrix empty_store))"
    by (simp_all add: alloc_def empty_store_def)
  note r = FibPowerMatrixRecursive_result[OF h, of 0 "snd (alloc base_matrix empty_store)"]
  from r b c obtain v where
    "FibPowerMatrixRecursive 10 = Some v" "sint v = int (fib (idx 10))"
    "v = m00 (mat_pow base_matrix (idx 10 - 1))" by blast
  then have "\<exists>v. FibPowerMatrixRecursive 10 = Some v \<and> sint v = 55
            \<and> v = m00 (mat_pow base_matrix (idx 10 - 1))"
    by (simp add: idx_numeral fib_10)
  moreover from r a have
    "\<exists>s'. fibPowerRecursive 0 10 (snd (alloc base_matrix empty_store)) = Some s'
        \<and> heap s' 0 = mat_pow base_matrix (max 1 (idx 10))" by blast
  ultimately show ?thesis using h b c a FibPowerMatrixRecursive_0 by blast
qed

text \<open>C3 as stated fails at \<open>n = 93\<close>, where the entries of the matrix have wrapped.\<close>

theorem FibPowerMatrixRecursive_overflow_counterexample:
  "0 \<le>s (93::go_int) \<and> FibPowerMatrixRecursive 93 = Some (- 6246583658587674878)
   \<and> sint (- 6246583658587674878 :: go_int) \<noteq> int (fib 93)"
proof -
  have h: "0 \<le>s (93::go_int)" by (simp add: word_sle_eq)
  have "FibPowerMatrixRecursive 93 = Some (- 6246583658587674878)"
    using FibPowerMatrixRecursive_fib[OF h] by (simp only: idx_numeral word_fib_93)
  then show ?thesis using h by (simp add: fib_93)
qed

subsection \<open>C4: the two matrix variants agree\<close>

text \<open>
  C4. For every \<open>n\<close> from 0 to 200, \<open>FibPowerMatrix(n)\<close> returns, and it returns the value
  that \<open>FibPowerMatrixRecursive(n)\<close> returns.
\<close>

theorem matrix_variants_agree:
  assumes "0 \<le>s n" and "n \<le>s 200"
  shows "FibPowerMatrix n = FibPowerMatrixRecursive n \<and> (\<exists>v. FibPowerMatrix n = Some v)"
  by (simp add: FibPowerMatrix_fib[OF assms(1)] FibPowerMatrixRecursive_fib[OF assms(1)])

text \<open>The theorem at \<open>n = 200\<close>.\<close>

theorem matrix_variants_agree_witness:
  "0 \<le>s (200::go_int) \<and> (200::go_int) \<le>s 200
   \<and> FibPowerMatrix 200 = FibPowerMatrixRecursive 200 \<and> (\<exists>v. FibPowerMatrix 200 = Some v)"
proof -
  have h: "0 \<le>s (200::go_int)" and b: "(200::go_int) \<le>s 200" by (simp_all add: word_sle_eq)
  show ?thesis using h b matrix_variants_agree[OF h b] by blast
qed

subsection \<open>C5: all six variants\<close>

lemma FibRecursive_0: "FibRecursive 0 = 0"
  by (simp add: FibRecursive.simps[of 0] word_sless_alt)

lemma FibTailRecursive_0: "FibTailRecursive 0 = 0"
  by (simp add: FibTailRecursive_def fibTailRecursive.simps[of 0])

text \<open>From 1 on, below the largest \<open>int\<close>, all six variants return the same value.\<close>

lemma variants_agree_from_1:
  assumes "1 \<le>s n" and "n <s 9223372036854775807"
  shows "FibRecursiveCache n = Inr (FibRecursive n)
       \<and> FibTailRecursive n = FibRecursive n
       \<and> FibIterative n = FibRecursive n
       \<and> FibPowerMatrix n = Some (FibRecursive n)
       \<and> FibPowerMatrixRecursive n = Some (FibRecursive n)"
proof -
  have n0: "0 \<le>s n" by (rule ge1_ge0[OF assms(1)])
  have b: "sint n < 9223372036854775807" using assms(2) by (simp add: word_sless_alt)
  show ?thesis
    by (simp add: FibRecursive_fib[OF n0] FibRecursiveCache_fib[OF assms(1) b]
        FibTailRecursive_fib[OF n0] FibIterative_fib[OF assms(1)]
        FibPowerMatrix_fib[OF n0] FibPowerMatrixRecursive_fib[OF n0])
qed

text \<open>
  C5, at \<open>n = 0\<close>. \<open>FibRecursive\<close>, \<open>FibTailRecursive\<close>, \<open>FibPowerMatrix\<close> and
  \<open>FibPowerMatrixRecursive\<close> return 0 and \<open>FibIterative\<close> returns 1, which the claim
  allows; \<open>FibRecursiveCache\<close> returns nothing: it panics with an index out of range.
\<close>

theorem variants_at_0:
  "FibRecursiveCache 0 = Inl IndexOutOfRange
   \<and> FibRecursive 0 = 0 \<and> FibTailRecursive 0 = 0
   \<and> FibPowerMatrix 0 = Some 0 \<and> FibPowerMatrixRecursive 0 = Some 0
   \<and> FibIterative 0 = 1"
  by (simp add: FibRecursiveCache_0 FibRecursive_0 FibTailRecursive_0 FibPowerMatrix_0
      FibPowerMatrixRecursive_0 FibIterative_0)

subsection \<open>C6: FibTailRecursive\<close>

lemma FibTailRecursive_93: "FibTailRecursive 93 = - 6246583658587674878"
proof -
  have h: "0 \<le>s (93::go_int)" by (simp add: word_sle_eq)
  show ?thesis using FibTailRecursive_fib[OF h] by (simp only: idx_numeral word_fib_93)
qed

text \<open>
  C6, as amended. For every \<open>n \<ge> 0\<close>, \<open>FibTailRecursive(n)\<close> is the helper called with
  remaining count \<open>n\<close> and the pair \<open>(0, 1)\<close>; its result is \<open>F(n)\<close> reduced modulo
  \<open>2^64\<close>, and \<open>F(n)\<close> itself for \<open>0 \<le> n \<le> 92\<close>. The helper returns \<open>first\<close> when
  the count is 0 and otherwise recurses on the count less one with the pair shifted to
  \<open>(second, first + second)\<close>.
\<close>

theorem FibTailRecursive_result:
  assumes "0 \<le>s n"
  shows "FibTailRecursive n = fibTailRecursive n 0 1
       \<and> unat (FibTailRecursive n) = fib (idx n) mod 2 ^ 64
       \<and> (n \<le>s 92 \<longrightarrow> sint (FibTailRecursive n) = int (fib (idx n)))
       \<and> fibTailRecursive 0 first second = first
       \<and> (m \<noteq> 0 \<longrightarrow>
            fibTailRecursive m first second = fibTailRecursive (m - 1) second (first + second))"
proof -
  have e: "FibTailRecursive n = word_of_nat (fib (idx n))" by (rule FibTailRecursive_fib[OF assms])
  have "unat (FibTailRecursive n) = fib (idx n) mod 2 ^ 64" unfolding e by (rule unat_word_fib)
  moreover have "n \<le>s 92 \<longrightarrow> sint (FibTailRecursive n) = int (fib (idx n))"
    unfolding e using fib_exact[OF assms] by blast
  moreover have "fibTailRecursive 0 first second = first"
    by (simp add: fibTailRecursive.simps[of 0])
  moreover have "m \<noteq> 0 \<longrightarrow>
      fibTailRecursive m first second = fibTailRecursive (m - 1) second (first + second)"
    by (simp add: fibTailRecursive.simps[of m])
  ultimately show ?thesis by (simp add: FibTailRecursive_def)
qed

text \<open>The theorem at \<open>n = 10\<close>, and the helper's recursive step at count 1.\<close>

theorem FibTailRecursive_result_witness:
  "0 \<le>s (10::go_int) \<and> (10::go_int) \<le>s 92 \<and> (1::go_int) \<noteq> 0
   \<and> sint (FibTailRecursive 10) = 55
   \<and> fibTailRecursive 1 0 1 = fibTailRecursive (1 - 1) 1 (0 + 1)"
proof -
  have h: "0 \<le>s (10::go_int)" by (simp add: word_sle_eq)
  have b: "(10::go_int) \<le>s 92" by (simp add: word_sle_eq)
  note r = FibTailRecursive_result[OF h, where m = 1 and first = 0 and second = 1]
  from r b have "sint (FibTailRecursive 10) = int (fib (idx 10))" by blast
  then have "sint (FibTailRecursive 10) = 55" by (simp add: idx_numeral fib_10)
  moreover from r have "fibTailRecursive 1 0 1 = fibTailRecursive (1 - 1) 1 (0 + 1)" by simp
  ultimately show ?thesis using h b by simp
qed

text \<open>C6 as stated fails at \<open>n = 93\<close>, where the sum has wrapped to a negative number.\<close>

theorem FibTailRecursive_overflow_counterexample:
  "0 \<le>s (93::go_int) \<and> sint (FibTailRecursive 93) = - 6246583658587674878
   \<and> int (fib 93) = 12200160415121876738 \<and> sint (FibTailRecursive 93) \<noteq> int (fib 93)"
  by (simp add: FibTailRecursive_93 fib_93 word_sle_eq)

subsection \<open>C7: silent wrap-around\<close>

text \<open>
  C7. The results have the fixed-width type \<open>int\<close> and no function has an error
  result. For every \<open>n \<ge> 1\<close> the 64 bits returned by \<open>FibIterative\<close> and by
  \<open>FibTailRecursive\<close> are \<open>F(n)\<close> reduced modulo \<open>2^64\<close>; read as a signed \<open>int\<close> they
  are \<open>F(n)\<close> for every \<open>n \<le> 92\<close>, and differ from \<open>F(n)\<close> for every \<open>n \<ge> 93\<close>.
\<close>

theorem wraps_silently:
  assumes "1 \<le>s n"
  shows "unat (FibIterative n) = fib (idx n) mod 2 ^ 64
       \<and> unat (FibTailRecursive n) = fib (idx n) mod 2 ^ 64
       \<and> (n \<le>s 92 \<longrightarrow> sint (FibIterative n) = int (fib (idx n))
                      \<and> sint (FibTailRecursive n) = int (fib (idx n)))
       \<and> (93 \<le>s n \<longrightarrow> sint (FibIterative n) \<noteq> int (fib (idx n))
                      \<and> sint (FibTailRecursive n) \<noteq> int (fib (idx n)))"
proof -
  have n0: "0 \<le>s n" by (rule ge1_ge0[OF assms])
  have i: "FibIterative n = word_of_nat (fib (idx n))" by (rule FibIterative_fib[OF assms])
  have t: "FibTailRecursive n = word_of_nat (fib (idx n))" by (rule FibTailRecursive_fib[OF n0])
  have "unat (FibIterative n) = fib (idx n) mod 2 ^ 64" unfolding i by (rule unat_word_fib)
  moreover have "unat (FibTailRecursive n) = fib (idx n) mod 2 ^ 64"
    unfolding t by (rule unat_word_fib)
  moreover have "n \<le>s 92 \<longrightarrow> sint (FibIterative n) = int (fib (idx n))
                      \<and> sint (FibTailRecursive n) = int (fib (idx n))"
    unfolding i t using fib_exact[OF n0] by blast
  moreover have "93 \<le>s n \<longrightarrow> sint (FibIterative n) \<noteq> int (fib (idx n))
                      \<and> sint (FibTailRecursive n) \<noteq> int (fib (idx n))"
    using fib_overflow[of n] by blast
  ultimately show ?thesis by blast
qed

text \<open>The theorem at \<open>n = 10\<close>, inside the exact range, and at \<open>n = 93\<close>, past it.\<close>

theorem wraps_silently_witness:
  "1 \<le>s (10::go_int) \<and> (10::go_int) \<le>s 92
   \<and> sint (FibIterative 10) = 55 \<and> sint (FibTailRecursive 10) = 55
   \<and> 1 \<le>s (93::go_int) \<and> (93::go_int) \<le>s 93
   \<and> unat (FibIterative 93) = 12200160415121876738 mod 2 ^ 64
   \<and> sint (FibIterative 93) \<noteq> 12200160415121876738
   \<and> sint (FibTailRecursive 93) \<noteq> 12200160415121876738"
proof -
  have h10: "1 \<le>s (10::go_int)" and b10: "(10::go_int) \<le>s 92"
    and h93: "1 \<le>s (93::go_int)" and b93: "(93::go_int) \<le>s 93"
    by (simp_all add: word_sle_eq)
  have "sint (FibIterative 10) = 55 \<and> sint (FibTailRecursive 10) = 55"
    using b10 wraps_silently[OF h10] by (simp add: idx_numeral fib_10)
  moreover have "unat (FibIterative 93) = 12200160415121876738 mod 2 ^ 64
      \<and> sint (FibIterative 93) \<noteq> 12200160415121876738
      \<and> sint (FibTailRecursive 93) \<noteq> 12200160415121876738"
    using b93 wraps_silently[OF h93] by (simp only: idx_numeral fib_93) simp
  ultimately show ?thesis using h10 b10 h93 b93 by blast
qed

subsection \<open>C8: the bounds of the cache\<close>

text \<open>
  C8. For \<open>n = 0\<close> the slice has length 1 and the helper's base case writes index 1:
  \<open>FibRecursiveCache(0)\<close> panics with an index out of range and returns no value. For
  every \<open>n \<ge> 1\<close> the helper, given a slice of length \<open>n + 1\<close>, returns without a panic
  (every index it reads or writes is inside the slice), the final read at index \<open>n\<close> is
  inside the slice, and \<open>FibRecursiveCache(n)\<close> never ends in an index panic.
\<close>

theorem FibRecursiveCache_bounds:
  "FibRecursiveCache 0 = Inl IndexOutOfRange
   \<and> make_slice (0 + 1) = Inr [0]
   \<and> fibRecursiveCache 0 [0] = Inl IndexOutOfRange
   \<and> slice_set [0] 1 1 = Inl IndexOutOfRange
   \<and> (1 \<le>s n \<longrightarrow> length cache = Suc (idx n) \<longrightarrow>
         (\<exists>c. fibRecursiveCache n cache = Inr c \<and> length c = Suc (idx n)
              \<and> slice_get c n = Inr (c ! idx n)))
   \<and> (1 \<le>s n \<longrightarrow> FibRecursiveCache n \<noteq> Inl IndexOutOfRange)"
proof -
  have a: "make_slice (0 + 1) = Inr [0]"
    by (simp add: make_slice_def word_sless_alt)
  have b: "slice_set [0] 1 1 = Inl IndexOutOfRange"
    by (simp add: slice_set_def in_bounds_def)
  have c: "fibRecursiveCache 0 [0] = Inl IndexOutOfRange"
    by (simp add: fibRecursiveCache.simps[of 0] slice_set_def in_bounds_def
        word_sless_alt word_sle_eq)
  have d: "1 \<le>s n \<longrightarrow> length cache = Suc (idx n) \<longrightarrow>
         (\<exists>c. fibRecursiveCache n cache = Inr c \<and> length c = Suc (idx n)
              \<and> slice_get c n = Inr (c ! idx n))"
  proof (intro impI)
    assume h: "1 \<le>s n" and l: "length cache = Suc (idx n)"
    then have "idx n < length cache" by simp
    from fibRecursiveCache_fills[OF h this] l obtain c where
      c: "fibRecursiveCache n cache = Inr c" "length c = Suc (idx n)" by auto
    have "slice_get c n = Inr (c ! idx n)"
      using c(2) ge1_ge0[OF h] by (simp add: slice_get_def in_bounds_def idx_def)
    with c show "\<exists>c. fibRecursiveCache n cache = Inr c \<and> length c = Suc (idx n)
              \<and> slice_get c n = Inr (c ! idx n)" by blast
  qed
  have e: "1 \<le>s n \<longrightarrow> FibRecursiveCache n \<noteq> Inl IndexOutOfRange"
    using FibRecursiveCache_no_index_panic by blast
  from FibRecursiveCache_0 a b c d e show ?thesis by blast
qed

text \<open>The theorem at \<open>n = 3\<close> with a slice of four zeros.\<close>

theorem FibRecursiveCache_bounds_witness:
  "1 \<le>s (3::go_int) \<and> length [0, 0, 0, 0 :: go_int] = Suc (idx 3)
   \<and> (\<exists>c. fibRecursiveCache 3 [0, 0, 0, 0] = Inr c \<and> length c = 4)
   \<and> FibRecursiveCache 3 \<noteq> Inl IndexOutOfRange
   \<and> FibRecursiveCache 0 = Inl IndexOutOfRange"
proof -
  have h: "1 \<le>s (3::go_int)" by (simp add: word_sle_eq)
  have l: "length [0, 0, 0, 0 :: go_int] = Suc (idx 3)" by (simp add: idx_numeral)
  note r = FibRecursiveCache_bounds[of 3 "[0, 0, 0, 0]"]
  from r h l have "\<exists>c. fibRecursiveCache 3 [0, 0, 0, 0] = Inr c \<and> length c = Suc (idx 3)"
    by blast
  then have "\<exists>c. fibRecursiveCache 3 [0, 0, 0, 0] = Inr c \<and> length c = 4"
    by (simp add: idx_numeral)
  moreover from r h have "FibRecursiveCache 3 \<noteq> Inl IndexOutOfRange" by blast
  moreover from r have "FibRecursiveCache 0 = Inl IndexOutOfRange" by blast
  ultimately show ?thesis using h l by blast
qed

subsection \<open>C9: fibMultiply\<close>

text \<open>
  C9. After \<open>fibMultiply(F, M)\<close> the matrix at \<open>F\<close> is the standard product of the
  matrices that were at \<open>F\<close> and at \<open>M\<close> before the call, for all addresses and all
  stores; the aliased call \<open>fibMultiply(F, F)\<close> leaves the square of the matrix that was
  at \<open>F\<close>.
\<close>

theorem fibMultiply_product:
  "heap (fibMultiply F M s) F = mat_mul (heap s F) (heap s M)
   \<and> heap (fibMultiply F F s) F = mat_mul (heap s F) (heap s F)"
  by (simp add: fibMultiply_heap_F)

subsection \<open>C10: fibPowerRecursive terminates\<close>

text \<open>
  C10. For every \<open>n \<ge> 0\<close> the call \<open>fibPowerRecursive(F, n)\<close> returns. Exponents 0 and 1
  return at once; for \<open>n \<ge> 2\<close> the function makes one recursive call, on \<open>n/2\<close>, which is
  not negative and strictly smaller than \<open>n\<close>.
\<close>

theorem fibPowerRecursive_terminates:
  assumes "0 \<le>s n"
  shows "(\<exists>s'. fibPowerRecursive F n s = Some s')
       \<and> fibPowerRecursive F 0 s = Some s
       \<and> fibPowerRecursive F 1 s = Some s
       \<and> (2 \<le>s n \<longrightarrow>
            0 \<le>s go_div n 2 \<and> go_div n 2 <s n
            \<and> fibPowerRecursive F n s =
                Option.bind (fibPowerRecursive F (go_div n 2) (snd (alloc base_matrix s)))
                  (\<lambda>s2. if go_mod n 2 \<noteq> 0
                        then Some (fibMultiply F (fst (alloc base_matrix s)) (fibMultiply F F s2))
                        else Some (fibMultiply F F s2)))"
proof -
  have a: "\<exists>s'. fibPowerRecursive F n s = Some s'" by (rule fibPowerRecursive_returns[OF assms])
  have b: "fibPowerRecursive F 0 s = Some s" "fibPowerRecursive F 1 s = Some s"
    by (simp_all add: fibPowerRecursive_base)
  have c: "2 \<le>s n \<longrightarrow>
            0 \<le>s go_div n 2 \<and> go_div n 2 <s n
            \<and> fibPowerRecursive F n s =
                Option.bind (fibPowerRecursive F (go_div n 2) (snd (alloc base_matrix s)))
                  (\<lambda>s2. if go_mod n 2 \<noteq> 0
                        then Some (fibMultiply F (fst (alloc base_matrix s)) (fibMultiply F F s2))
                        else Some (fibMultiply F F s2))"
  proof
    assume g: "2 \<le>s n"
    then have s: "2 \<le> sint n" by (simp add: word_sle_eq)
    then have nb: "\<not> (n = 0 \<or> n = 1)" by auto
    have "sint (go_div n 2) = sint n div 2" by (rule go_div_2[OF assms])
    then have "0 \<le>s go_div n 2 \<and> go_div n 2 <s n"
      using s by (simp add: word_sle_eq word_sless_alt)
    then show "0 \<le>s go_div n 2 \<and> go_div n 2 <s n
            \<and> fibPowerRecursive F n s =
                Option.bind (fibPowerRecursive F (go_div n 2) (snd (alloc base_matrix s)))
                  (\<lambda>s2. if go_mod n 2 \<noteq> 0
                        then Some (fibMultiply F (fst (alloc base_matrix s)) (fibMultiply F F s2))
                        else Some (fibMultiply F F s2))"
      using fibPowerRecursive_step[OF nb] by blast
  qed
  from a b c show ?thesis by blast
qed

text \<open>The theorem at \<open>n = 5\<close>, on a store that holds the base matrix at address 0.\<close>

theorem fibPowerRecursive_terminates_witness:
  "0 \<le>s (5::go_int) \<and> 2 \<le>s (5::go_int)
   \<and> (\<exists>s'. fibPowerRecursive 0 5 (snd (alloc base_matrix empty_store)) = Some s')
   \<and> go_div 5 2 <s 5"
proof -
  have h: "0 \<le>s (5::go_int)" and g: "2 \<le>s (5::go_int)" by (simp_all add: word_sle_eq)
  note r = fibPowerRecursive_terminates[OF h, of 0 "snd (alloc base_matrix empty_store)"]
  from r have "\<exists>s'. fibPowerRecursive 0 5 (snd (alloc base_matrix empty_store)) = Some s'"
    by blast
  moreover from r g have "go_div 5 2 <s 5" by blast
  ultimately show ?thesis using h g by blast
qed

end
